theory Spec2Isabelle
  imports Main "HOL-Library.Log_Nat"
begin

section \<open>The format tokenizer of the progress bar (tokens.go)\<close>

text \<open>
  A Go \<open>string\<close> is a sequence of bytes, and so is a HOL \<open>string\<close>: the format string
  and the verb names are carried byte for byte. The tokenizer reads the format through a
  \<open>bufio.Reader\<close> over a \<open>strings.Reader\<close>; the state of that reader is the list of
  bytes not yet consumed.
\<close>

subsection \<open>Tokens\<close>

datatype token =
    spaceToken
  | barToken
  | percentToken
  | rateToken
  | etaToken
  | customVerbToken (verb: string)
  | literalToken (content: string)

type_synonym tokens = "token list"

subsection \<open>The reader: \<open>ReadRune\<close> and \<open>Peek\<close>\<close>

text \<open>
  \<open>io.EOF\<close> is the only error a reader over an in-memory string gives; \<open>ErrOther\<close>
  stands for any other error value, so that the comparison \<open>err == io.EOF\<close> of
  \<open>tokenize\<close> keeps both of its branches.
\<close>

datatype error = EOF | ErrOther

type_synonym stream = string

text \<open>
  A rune is carried as the bytes of \<open>string([]rune{r})\<close>, its UTF-8 encoding, which is
  what the source writes into its buffers. The comparisons \<open>r == ' '\<close> and \<open>r == ':'\<close>
  are then comparisons with the one-byte strings.
\<close>

type_synonym rune = string

definition RuneError :: rune where
  "RuneError = [char_of (239::nat), char_of (191::nat), char_of (189::nat)]"

text \<open>
  The table \<open>first\<close> of \<open>unicode/utf8\<close> for a leading byte of 128 or more: the length
  of the encoding and the accepted range of the second byte; \<open>None\<close> for a byte that
  starts no encoding.
\<close>

definition first :: "nat \<Rightarrow> (nat \<times> nat \<times> nat) option" where
  "first b0 =
     (if 194 \<le> b0 \<and> b0 \<le> 223 then Some (2, 128, 191)
      else if b0 = 224 then Some (3, 160, 191)
      else if 225 \<le> b0 \<and> b0 \<le> 236 then Some (3, 128, 191)
      else if b0 = 237 then Some (3, 128, 159)
      else if 238 \<le> b0 \<and> b0 \<le> 239 then Some (3, 128, 191)
      else if b0 = 240 then Some (4, 144, 191)
      else if 241 \<le> b0 \<and> b0 \<le> 243 then Some (4, 128, 191)
      else if b0 = 244 then Some (4, 128, 143)
      else None)"

definition inRange :: "char \<Rightarrow> nat \<Rightarrow> nat \<Rightarrow> bool" where
  "inRange b lo hi = (lo \<le> of_char b \<and> of_char b \<le> hi)"

text \<open>
  \<open>utf8.DecodeRune\<close> on a non-empty slice whose first byte is 128 or more: the rune and
  the number of bytes it takes. A malformed or truncated encoding gives \<open>RuneError\<close> and
  takes one byte.
\<close>

definition DecodeRune :: "string \<Rightarrow> rune \<times> nat" where
  "DecodeRune p =
     (case first (of_char (hd p)) of
        None \<Rightarrow> (RuneError, 1)
      | Some (sz, lo, hi) \<Rightarrow>
          if length p < sz then (RuneError, 1)
          else if \<not> inRange (p ! 1) lo hi then (RuneError, 1)
          else if sz \<le> 2 then (take 2 p, 2)
          else if \<not> inRange (p ! 2) 128 191 then (RuneError, 1)
          else if sz \<le> 3 then (take 3 p, 3)
          else if \<not> inRange (p ! 3) 128 191 then (RuneError, 1)
          else (take 4 p, 4))"

definition ReadRune :: "stream \<Rightarrow> error + (rune \<times> stream)" where
  "ReadRune s =
     (case s of
        [] \<Rightarrow> Inl EOF
      | b0 # _ \<Rightarrow>
          (case (if (of_char b0 :: nat) < 128 then ([b0], 1) else DecodeRune s) of
             (r, sz) \<Rightarrow> Inr (r, drop sz s)))"

definition Peek1 :: "stream \<Rightarrow> error + char" where
  "Peek1 s = (case s of [] \<Rightarrow> Inl EOF | b # _ \<Rightarrow> Inr b)"

subsection \<open>The scanner\<close>

definition readSeparator :: "stream \<Rightarrow> bool" where
  "readSeparator s =
     (case Peek1 s of
        Inl err \<Rightarrow> True
      | Inr p0 \<Rightarrow> p0 = CHR '' '' \<or> p0 = CHR '':'')"

text \<open>The loop of \<open>tokenFromString\<close> over the custom verbs.\<close>

fun customVerbs_loop :: "string \<Rightarrow> string list \<Rightarrow> token option" where
  "customVerbs_loop s [] = None"
| "customVerbs_loop s (v # customVerbs) =
     (if s = v then Some (customVerbToken v) else customVerbs_loop s customVerbs)"

definition tokenFromString :: "string \<Rightarrow> string list \<Rightarrow> token option" where
  "tokenFromString s customVerbs =
     (if s = ''bar'' then Some barToken
      else if s = ''percent'' then Some percentToken
      else if s = ''rate'' then Some rateToken
      else if s = ''eta'' then Some etaToken
      else customVerbs_loop s customVerbs)"

text \<open>The case labels of the \<open>switch\<close> in \<open>tokenFromString\<close>.\<close>

definition standardVerbs :: "string list" where
  "standardVerbs = [''bar'', ''percent'', ''rate'', ''eta'']"

text \<open>
  A string that \<open>ReadRune\<close> reads back as one rune and nothing more: one ASCII byte or
  one well-formed multi-byte encoding.
\<close>

definition validRune :: "string \<Rightarrow> bool" where
  "validRune r = (ReadRune r = Inr (r, []))"

lemma DecodeRune_props:
  assumes "DecodeRune p = (r, n)" and "p \<noteq> []" and "\<not> (of_char (hd p) :: nat) < 128"
  shows "0 < n \<and> r \<noteq> [] \<and> \<not> (of_char (hd r) :: nat) < 128"
  using assms
  by (cases p)
    (auto simp: DecodeRune_def RuneError_def split: if_splits option.splits prod.splits)

lemma ReadRune_Nil: "ReadRune [] = Inl EOF"
  by (simp add: ReadRune_def)

lemma ReadRune_ascii:
  "(of_char c :: nat) < 128 \<Longrightarrow> ReadRune (c # s) = Inr ([c], s)"
  by (simp add: ReadRune_def)

lemma ReadRune_Inr:
  assumes "ReadRune s = Inr (r, s')"
  shows "s \<noteq> [] \<and> length s' < length s \<and> r \<noteq> [] \<and>
    (if (of_char (hd s) :: nat) < 128 then r = [hd s] \<and> s' = tl s
     else \<not> (of_char (hd r) :: nat) < 128)"
proof (cases s)
  case Nil
  with assms show ?thesis by (simp add: ReadRune_def)
next
  case (Cons b0 bs)
  show ?thesis
  proof (cases "(of_char b0 :: nat) < 128")
    case True
    with assms Cons show ?thesis by (auto simp: ReadRune_def)
  next
    case False
    obtain r0 n where d: "DecodeRune s = (r0, n)"
      by (cases "DecodeRune s") auto
    from d Cons False have "0 < n \<and> r0 \<noteq> [] \<and> \<not> (of_char (hd r0) :: nat) < 128"
      by (intro DecodeRune_props) auto
    moreover from assms Cons False d have "r = r0" and "s' = drop n s"
      by (auto simp: ReadRune_def)
    ultimately show ?thesis using Cons False by auto
  qed
qed

lemma ReadRune_shorter:
  assumes "ReadRune s = Inr (r, s')"
  shows "length s' < length s"
  using ReadRune_Inr [OF assms] by simp

text \<open>
  \<open>readLiteral\<close>: the buffer \<open>value\<close> starts as the prefix rune; each turn of the loop
  first looks for a separator and otherwise reads and appends one rune.
\<close>

function readLiteral_loop :: "string \<Rightarrow> stream \<Rightarrow> error + (token \<times> stream)" where
  "readLiteral_loop val s =
     (if readSeparator s then Inr (literalToken val, s)
      else (case ReadRune s of
              Inl err \<Rightarrow> Inl err
            | Inr (r, s') \<Rightarrow> readLiteral_loop (val @ r) s'))"
  by pat_completeness auto
termination
  by (relation "measure (\<lambda>(val, s). length s)") (auto dest: ReadRune_shorter)

declare readLiteral_loop.simps [simp del]

definition readLiteral :: "rune \<Rightarrow> stream \<Rightarrow> error + (token \<times> stream)" where
  "readLiteral prefix s = readLiteral_loop prefix s"

text \<open>
  \<open>readAction\<close>: the buffer \<open>verb\<close> starts empty; each turn reads one rune, appends it
  and asks \<open>tokenFromString\<close>; without a match it looks for a separator, asks once more
  and falls back to the literal.
\<close>

function readAction_loop :: "string \<Rightarrow> string list \<Rightarrow> stream \<Rightarrow> error + (token \<times> stream)" where
  "readAction_loop vb customVerbs s =
     (case ReadRune s of
        Inl err \<Rightarrow> Inl err
      | Inr (r, s') \<Rightarrow>
          (case tokenFromString (vb @ r) customVerbs of
             Some t \<Rightarrow> Inr (t, s')
           | None \<Rightarrow>
               if readSeparator s' then
                 (case tokenFromString (vb @ r) customVerbs of
                    Some t \<Rightarrow> Inr (t, s')
                  | None \<Rightarrow> Inr (literalToken ('':'' @ vb @ r), s'))
               else readAction_loop (vb @ r) customVerbs s'))"
  by pat_completeness auto
termination
  by (relation "measure (\<lambda>(vb, customVerbs, s). length s)") (auto dest: ReadRune_shorter)

declare readAction_loop.simps [simp del]

definition readAction :: "string list \<Rightarrow> stream \<Rightarrow> error + (token \<times> stream)" where
  "readAction customVerbs s = readAction_loop [] customVerbs s"

text \<open>
  \<open>nextToken\<close>: every branch of the \<open>switch\<close> returns, so the surrounding \<open>for\<close> runs
  its body once.
\<close>

definition nextToken :: "string list \<Rightarrow> stream \<Rightarrow> error + (token \<times> stream)" where
  "nextToken customVerbs s =
     (case ReadRune s of
        Inl err \<Rightarrow> Inl err
      | Inr (r, s') \<Rightarrow>
          if r = '' '' then Inr (spaceToken, s')
          else if r = '':'' then readAction customVerbs s'
          else readLiteral r s')"

lemma readLiteral_loop_shorter:
  "readLiteral_loop val s = Inr (t, s') \<Longrightarrow> length s' \<le> length s"
proof (induction val s rule: readLiteral_loop.induct)
  case (1 val s)
  note unfold = readLiteral_loop.simps [of val s]
  show ?case
  proof (cases "readSeparator s")
    case True
    with "1.prems" show ?thesis by (simp add: unfold)
  next
    case False
    with "1.prems" obtain r s1 where rr: "ReadRune s = Inr (r, s1)"
      and rec: "readLiteral_loop (val @ r) s1 = Inr (t, s')"
      by (auto simp: unfold split: sum.splits)
    from "1.IH" [OF False rr refl rec] ReadRune_shorter [OF rr] show ?thesis by simp
  qed
qed

lemma readAction_loop_shorter:
  "readAction_loop vb customVerbs s = Inr (t, s') \<Longrightarrow> length s' < length s"
proof (induction vb customVerbs s rule: readAction_loop.induct)
  case (1 vb customVerbs s)
  note unfold = readAction_loop.simps [of vb customVerbs s]
  from "1.prems" obtain r s1 where rr: "ReadRune s = Inr (r, s1)"
    by (auto simp: unfold split: sum.splits)
  note sh = ReadRune_shorter [OF rr]
  show ?case
  proof (cases "tokenFromString (vb @ r) customVerbs")
    case (Some t0)
    with "1.prems" rr sh show ?thesis by (simp add: unfold)
  next
    case None
    show ?thesis
    proof (cases "readSeparator s1")
      case True
      with "1.prems" rr None sh show ?thesis by (simp add: unfold)
    next
      case False
      with "1.prems" rr None
      have "readAction_loop (vb @ r) customVerbs s1 = Inr (t, s')" by (simp add: unfold)
      from "1.IH" [OF rr refl None False this] sh show ?thesis by simp
    qed
  qed
qed

lemma nextToken_shorter:
  assumes "nextToken customVerbs s = Inr (t, s')"
  shows "length s' < length s"
proof -
  from assms obtain r s1 where rr: "ReadRune s = Inr (r, s1)"
    by (auto simp: nextToken_def split: sum.splits)
  note sh = ReadRune_shorter [OF rr]
  from assms rr consider "s' = s1"
    | "readAction_loop [] customVerbs s1 = Inr (t, s')"
    | "readLiteral_loop r s1 = Inr (t, s')"
    by (auto simp: nextToken_def readAction_def readLiteral_def split: if_splits)
  then show ?thesis
  proof cases
    case 1
    with sh show ?thesis by simp
  next
    case 2
    from readAction_loop_shorter [OF 2] sh show ?thesis by simp
  next
    case 3
    from readLiteral_loop_shorter [OF 3] sh show ?thesis by simp
  qed
qed

text \<open>
  \<open>tokenize\<close>: the loop appends each token to \<open>t\<close> and returns \<open>t\<close> at
  \<open>io.EOF\<close>; any other error is a panic, the \<open>Inl\<close> of the result.
\<close>

function tokenize_loop :: "tokens \<Rightarrow> string list \<Rightarrow> stream \<Rightarrow> error + tokens" where
  "tokenize_loop t customVerbs s =
     (case nextToken customVerbs s of
        Inl err \<Rightarrow> (if err = EOF then Inr t else Inl err)
      | Inr (tkn, s') \<Rightarrow> tokenize_loop (t @ [tkn]) customVerbs s')"
  by pat_completeness auto
termination
  by (relation "measure (\<lambda>(t, customVerbs, s). length s)") (auto dest: nextToken_shorter)

declare tokenize_loop.simps [simp del]

definition tokenize :: "string \<Rightarrow> string list \<Rightarrow> error + tokens" where
  "tokenize f customVerbs = tokenize_loop [] customVerbs f"

section \<open>Rendering: the \<open>print\<close> methods\<close>

subsection \<open>\<open>float64\<close>, \<open>int\<close> and the library calls\<close>

text \<open>
  A \<open>float64\<close> is carried as the rational number it denotes; the infinities, NaN and
  the sign of zero are not carried. \<open>f64\<close> rounds a rational to the nearest
  \<open>float64\<close>, ties to the even significand: 53 significant bits above
  \<open>2 ^ - 1022\<close>, the fixed spacing \<open>2 ^ - 1074\<close> of the subnormals below. A value of
  magnitude \<open>2 ^ 1024\<close> or more, which the machine rounds to an infinity, is beyond what
  is carried. Every arithmetic operation of the source on \<open>float64\<close> is the exact
  operation followed by \<open>f64\<close>.
\<close>

type_synonym float64 = rat

definition pow2 :: "int \<Rightarrow> rat" where
  "pow2 k = (if 0 \<le> k then 2 ^ nat k else 1 / 2 ^ nat (- k))"

text \<open>The binary exponent of a positive rational: the \<open>e\<close> with \<open>2 ^ e \<le> x < 2 ^ (e + 1)\<close>.\<close>

definition ilog2 :: "rat \<Rightarrow> int" where
  "ilog2 x = (if 1 \<le> x then bitlen \<lfloor>x\<rfloor> - 1 else - bitlen (\<lceil>1 / x\<rceil> - 1))"

definition roundEven :: "rat \<Rightarrow> int" where
  "roundEven x =
     (let q = \<lfloor>x\<rfloor>; d = x - of_int q
      in if d < 1 / 2 then q else if 1 / 2 < d then q + 1 else if even q then q else q + 1)"

definition f64 :: "rat \<Rightarrow> float64" where
  "f64 x =
     (if x = 0 then 0
      else (let u = pow2 (max (ilog2 \<bar>x\<bar>) (- 1022) - 52)
            in of_int (roundEven (x / u)) * u))"

text \<open>The conversion \<open>float64(n)\<close> of an \<open>int\<close>, the product and \<open>math.Max\<close>.\<close>

definition float64_of_int :: "int \<Rightarrow> float64" where
  "float64_of_int n = f64 (of_int n)"

definition f64_mul :: "float64 \<Rightarrow> float64 \<Rightarrow> float64" where
  "f64_mul x y = f64 (x * y)"

definition math_Max :: "float64 \<Rightarrow> float64 \<Rightarrow> float64" where
  "math_Max x y = max x y"

text \<open>
  The conversion \<open>int(x)\<close> drops the fraction, towards zero. Go's \<open>int\<close> has 64 bits;
  it is carried as an unbounded integer, which agrees with the machine as long as no
  result leaves the 64-bit range (a width and the counts derived from it are far from
  that).
\<close>

definition int_of_float64 :: "float64 \<Rightarrow> int" where
  "int_of_float64 x = (if 0 \<le> x then \<lfloor>x\<rfloor> else \<lceil>x\<rceil>)"

datatype panic = Panic string

text \<open>\<open>strings.Repeat\<close> panics on a negative count.\<close>

definition Repeat :: "string \<Rightarrow> int \<Rightarrow> panic + string" where
  "Repeat s count =
     (if count < 0 then Inl (Panic ''strings: negative Repeat count'')
      else Inr (concat (replicate (nat count) s)))"

text \<open>The decimal digits of a natural number.\<close>

function digits :: "nat \<Rightarrow> string" where
  "digits n = (if n < 10 then [char_of (48 + n)] else digits (n div 10) @ [char_of (48 + n mod 10)])"
  by pat_completeness auto
termination
  by (relation "measure id") auto

declare digits.simps [simp del]

text \<open>
  The verb \<open>%.1f\<close> of \<open>fmt.Sprintf\<close> on a finite \<open>float64\<close>: the exact value rounded
  to one decimal, ties to the even digit, written with its sign, its integer part, a
  point and the one decimal.
\<close>

definition Sprintf_1f :: "float64 \<Rightarrow> string" where
  "Sprintf_1f x =
     (let n = nat (roundEven (\<bar>x\<bar> * 10))
      in (if x < 0 then ''-'' else []) @ digits (n div 10) @ ''.'' @ digits (n mod 10))"

subsection \<open>The state that the tokens read\<close>

text \<open>
  Modelled from the spec: the type \<open>Bar\<close> is declared outside \<open>tokens.go\<close>. The record
  holds what the \<open>print\<close> methods read of it: the fraction complete that the method
  \<open>prog()\<close> returns, the width, the five glyphs, the rate, the text that
  \<open>eta.String()\<close> returns, and the context entries, each a verb with the text that
  \<open>value.String()\<close> returns. Two field names carry a prime because \<open>end\<close> and
  \<open>context\<close> are words of the theory language.
\<close>

record Bar =
  prog :: float64
  width :: int
  start :: string
  complete :: string
  head :: string
  incomplete :: string
  end' :: string
  rate :: float64
  eta :: string
  context' :: "(string \<times> string) list"

subsection \<open>\<open>print\<close>\<close>

definition spaceToken_print :: "Bar \<Rightarrow> string" where
  "spaceToken_print b = '' ''"

definition barToken_print :: "Bar \<Rightarrow> panic + string" where
  "barToken_print b =
     (let p = int_of_float64 (f64_mul (prog b) (float64_of_int (width b)))
      in case Repeat (complete b) (int_of_float64 (math_Max 0 (float64_of_int (p - 1)))) of
           Inl e \<Rightarrow> Inl e
         | Inr c \<Rightarrow>
             (case Repeat (incomplete b) (width b - p) of
                Inl e \<Rightarrow> Inl e
              | Inr i \<Rightarrow> Inr (start b @ c @ head b @ i @ end' b)))"

definition percentToken_print :: "Bar \<Rightarrow> string" where
  "percentToken_print b = Sprintf_1f (f64_mul (prog b) 100) @ ''%''"

definition rateToken_print :: "Bar \<Rightarrow> string" where
  "rateToken_print b = Sprintf_1f (rate b)"

definition etaToken_print :: "Bar \<Rightarrow> string" where
  "etaToken_print b = eta b"

text \<open>The loop of \<open>customVerbToken.print\<close> over the context: the first entry of that verb.\<close>

fun context_loop :: "string \<Rightarrow> (string \<times> string) list \<Rightarrow> string option" where
  "context_loop v [] = None"
| "context_loop v (def # defs) =
     (if fst def = v then Some (snd def) else context_loop v defs)"

text \<open>
  \<open>customVerbToken.print\<close> writes to \<open>os.Stderr\<close> when it finds no entry. The error
  stream is the bytes written to it so far; the method takes it and gives it back.
\<close>

definition customVerbToken_print :: "string \<Rightarrow> Bar \<Rightarrow> string \<Rightarrow> string \<times> string" where
  "customVerbToken_print v b stderr =
     (case context_loop v (context' b) of
        Some s \<Rightarrow> (s, stderr)
      | None \<Rightarrow> (v, stderr @ ''tokenize: only use `:` for custom verbs''))"

definition literalToken_print :: "string \<Rightarrow> Bar \<Rightarrow> string" where
  "literalToken_print c b = c"

text \<open>
  The method \<open>print\<close> of the interface \<open>token\<close>, by the kind of the token: the text,
  with the error stream after the call, or the panic.
\<close>

fun print :: "token \<Rightarrow> Bar \<Rightarrow> string \<Rightarrow> panic + (string \<times> string)" where
  "print spaceToken b stderr = Inr (spaceToken_print b, stderr)"
| "print barToken b stderr =
     (case barToken_print b of Inl e \<Rightarrow> Inl e | Inr s \<Rightarrow> Inr (s, stderr))"
| "print percentToken b stderr = Inr (percentToken_print b, stderr)"
| "print rateToken b stderr = Inr (rateToken_print b, stderr)"
| "print etaToken b stderr = Inr (etaToken_print b, stderr)"
| "print (customVerbToken v) b stderr = Inr (customVerbToken_print v b stderr)"
| "print (literalToken c) b stderr = Inr (literalToken_print c b, stderr)"

text \<open>
  Modelled from the spec: the render pass over a compiled format is not in
  \<open>tokens.go\<close>. By the spec it invokes each token's render operation in order and
  concatenates the results into a single string.
\<close>

fun render :: "tokens \<Rightarrow> Bar \<Rightarrow> string \<Rightarrow> panic + (string \<times> string)" where
  "render [] b stderr = Inr ([], stderr)"
| "render (t # ts) b stderr =
     (case print t b stderr of
        Inl e \<Rightarrow> Inl e
      | Inr (s, stderr') \<Rightarrow>
          (case render ts b stderr' of
             Inl e \<Rightarrow> Inl e
           | Inr (out, stderr'') \<Rightarrow> Inr (s @ out, stderr'')))"

section \<open>Properties of the tokenizer\<close>

subsection \<open>The scan never panics and always returns\<close>

lemma ReadRune_error: "ReadRune s = Inl e \<Longrightarrow> e = EOF"
  by (cases s) (auto simp: ReadRune_def split: prod.splits)

lemma readLiteral_loop_error:
  "readLiteral_loop val s = Inl e \<Longrightarrow> e = EOF"
proof (induction val s rule: readLiteral_loop.induct)
  case (1 val s)
  note unfold = readLiteral_loop.simps [of val s]
  show ?case
  proof (cases "readSeparator s")
    case True
    with "1.prems" show ?thesis by (simp add: unfold)
  next
    case False
    show ?thesis
    proof (cases "ReadRune s")
      case (Inl e')
      with "1.prems" False ReadRune_error [OF Inl] show ?thesis by (simp add: unfold)
    next
      case (Inr p)
      obtain r s1 where p: "p = (r, s1)" by (cases p)
      from "1.prems" False Inr p have "readLiteral_loop (val @ r) s1 = Inl e"
        by (simp add: unfold)
      from "1.IH" [OF False Inr [unfolded p] refl this] show ?thesis .
    qed
  qed
qed

lemma readAction_loop_error:
  "readAction_loop vb customVerbs s = Inl e \<Longrightarrow> e = EOF"
proof (induction vb customVerbs s rule: readAction_loop.induct)
  case (1 vb customVerbs s)
  note unfold = readAction_loop.simps [of vb customVerbs s]
  show ?case
  proof (cases "ReadRune s")
    case (Inl e')
    with "1.prems" ReadRune_error [OF Inl] show ?thesis by (simp add: unfold)
  next
    case (Inr p)
    obtain r s1 where p: "p = (r, s1)" by (cases p)
    note rr = Inr [unfolded p]
    show ?thesis
    proof (cases "tokenFromString (vb @ r) customVerbs")
      case (Some t0)
      with "1.prems" rr show ?thesis by (simp add: unfold)
    next
      case None
      show ?thesis
      proof (cases "readSeparator s1")
        case True
        with "1.prems" rr None show ?thesis by (simp add: unfold)
      next
        case False
        with "1.prems" rr None
        have "readAction_loop (vb @ r) customVerbs s1 = Inl e" by (simp add: unfold)
        from "1.IH" [OF rr refl None False this] show ?thesis .
      qed
    qed
  qed
qed

lemma nextToken_error:
  assumes "nextToken customVerbs s = Inl e"
  shows "e = EOF"
proof (cases "ReadRune s")
  case (Inl e')
  with assms ReadRune_error [OF Inl] show ?thesis by (simp add: nextToken_def)
next
  case (Inr p)
  obtain r s1 where p: "p = (r, s1)" by (cases p)
  from assms Inr p consider "readAction_loop [] customVerbs s1 = Inl e"
    | "readLiteral_loop r s1 = Inl e"
    by (auto simp: nextToken_def readAction_def readLiteral_def split: if_splits)
  then show ?thesis
    by cases (auto dest: readAction_loop_error readLiteral_loop_error)
qed

lemma tokenize_loop_acc:
  "tokenize_loop t customVerbs s =
     (case tokenize_loop [] customVerbs s of Inl e \<Rightarrow> Inl e | Inr ts \<Rightarrow> Inr (t @ ts))"
proof (induction "length s" arbitrary: s t rule: less_induct)
  case less
  show ?case
  proof (cases "nextToken customVerbs s")
    case (Inl e)
    then show ?thesis
      by (simp add: tokenize_loop.simps [of _ customVerbs s])
  next
    case (Inr p)
    obtain tkn s1 where p: "p = (tkn, s1)" by (cases p)
    note nt = Inr [unfolded p]
    have sh: "length s1 < length s" by (rule nextToken_shorter [OF nt])
    have a: "tokenize_loop t customVerbs s = tokenize_loop (t @ [tkn]) customVerbs s1"
      using nt by (simp add: tokenize_loop.simps [of _ customVerbs s])
    have b: "tokenize_loop [] customVerbs s = tokenize_loop [tkn] customVerbs s1"
      using nt by (simp add: tokenize_loop.simps [of _ customVerbs s])
    have c: "tokenize_loop (t @ [tkn]) customVerbs s1 =
      (case tokenize_loop [] customVerbs s1 of Inl e \<Rightarrow> Inl e | Inr ts \<Rightarrow> Inr ((t @ [tkn]) @ ts))"
      by (rule less [OF sh])
    have d: "tokenize_loop [tkn] customVerbs s1 =
      (case tokenize_loop [] customVerbs s1 of Inl e \<Rightarrow> Inl e | Inr ts \<Rightarrow> Inr ([tkn] @ ts))"
      by (rule less [OF sh])
    show ?thesis
      unfolding a b c d by (simp split: sum.splits)
  qed
qed

lemma tokenize_EOF:
  "nextToken customVerbs f = Inl e \<Longrightarrow> tokenize f customVerbs = Inr []"
  using nextToken_error [of customVerbs f e]
  by (simp add: tokenize_def tokenize_loop.simps [of _ customVerbs f])

lemma tokenize_step:
  assumes "nextToken customVerbs f = Inr (tkn, f')"
  shows "tokenize f customVerbs =
     (case tokenize f' customVerbs of Inl e \<Rightarrow> Inl e | Inr ts \<Rightarrow> Inr (tkn # ts))"
proof -
  have "tokenize f customVerbs = tokenize_loop [tkn] customVerbs f'"
    using assms by (simp add: tokenize_def tokenize_loop.simps [of _ customVerbs f])
  also have "\<dots> = (case tokenize_loop [] customVerbs f' of Inl e \<Rightarrow> Inl e | Inr ts \<Rightarrow> Inr ([tkn] @ ts))"
    by (rule tokenize_loop_acc)
  finally show ?thesis by (simp add: tokenize_def split: sum.split)
qed

lemma tokenize_total: "\<exists>ts. tokenize f customVerbs = Inr ts"
proof (induction "length f" arbitrary: f rule: less_induct)
  case less
  show ?case
  proof (cases "nextToken customVerbs f")
    case (Inl e)
    then show ?thesis by (simp add: tokenize_EOF)
  next
    case (Inr p)
    obtain tkn f' where p: "p = (tkn, f')" by (cases p)
    note nt = Inr [unfolded p]
    from less [OF nextToken_shorter [OF nt]] obtain ts where "tokenize f' customVerbs = Inr ts" ..
    with tokenize_step [OF nt] show ?thesis by simp
  qed
qed

lemma tokenize_all:
  assumes step: "\<And>s t s'. nextToken customVerbs s = Inr (t, s') \<Longrightarrow> P t"
    and "tokenize f customVerbs = Inr ts"
  shows "\<forall>t\<in>set ts. P t"
  using assms(2)
proof (induction "length f" arbitrary: f ts rule: less_induct)
  case less
  show ?case
  proof (cases "nextToken customVerbs f")
    case (Inl e)
    with less.prems show ?thesis by (simp add: tokenize_EOF)
  next
    case (Inr p)
    obtain tkn f' where p: "p = (tkn, f')" by (cases p)
    note nt = Inr [unfolded p]
    obtain ts' where ts': "tokenize f' customVerbs = Inr ts'"
      using tokenize_total by blast
    with tokenize_step [OF nt] less.prems have "ts = tkn # ts'" by simp
    moreover have "P tkn" by (rule step [OF nt])
    moreover have "\<forall>t\<in>set ts'. P t"
      by (rule less.hyps [OF nextToken_shorter [OF nt] ts'])
    ultimately show ?thesis by simp
  qed
qed

subsection \<open>Which tokens the scan can give\<close>

lemma customVerbs_loop_None_iff:
  "customVerbs_loop s customVerbs = None \<longleftrightarrow> s \<notin> set customVerbs"
  by (induction customVerbs) auto

lemma customVerbs_loop_Some:
  "customVerbs_loop s customVerbs = Some t \<Longrightarrow> t = customVerbToken s \<and> s \<in> set customVerbs"
  by (induction customVerbs) (auto split: if_splits)


lemma tokenFromString_Some:
  assumes "tokenFromString s customVerbs = Some t"
  shows "t \<in> {barToken, percentToken, rateToken, etaToken} \<and> s \<in> set standardVerbs \<or>
         t = customVerbToken s \<and> s \<in> set customVerbs \<and> s \<notin> set standardVerbs"
  using assms
  by (auto simp: tokenFromString_def standardVerbs_def
      dest!: customVerbs_loop_Some split: if_splits)

lemma readLiteral_loop_token:
  "readLiteral_loop val s = Inr (t, s') \<Longrightarrow> \<exists>c. t = literalToken (val @ c)"
proof (induction val s rule: readLiteral_loop.induct)
  case (1 val s)
  note unfold = readLiteral_loop.simps [of val s]
  show ?case
  proof (cases "readSeparator s")
    case True
    with "1.prems" have "t = literalToken (val @ [])" by (auto simp: unfold)
    then show ?thesis ..
  next
    case False
    with "1.prems" obtain r s1 where rr: "ReadRune s = Inr (r, s1)"
      and rec: "readLiteral_loop (val @ r) s1 = Inr (t, s')"
      by (auto simp: unfold split: sum.splits)
    from "1.IH" [OF False rr refl rec] obtain c where "t = literalToken ((val @ r) @ c)" ..
    then have "t = literalToken (val @ (r @ c))" by simp
    then show ?thesis ..
  qed
qed

lemma readAction_loop_token:
  "readAction_loop vb customVerbs s = Inr (t, s') \<Longrightarrow>
     (\<exists>v. tokenFromString v customVerbs = Some t) \<or>
     (\<exists>v. t = literalToken ('':'' @ v) \<and> tokenFromString v customVerbs = None)"
proof (induction vb customVerbs s rule: readAction_loop.induct)
  case (1 vb customVerbs s)
  note unfold = readAction_loop.simps [of vb customVerbs s]
  from "1.prems" obtain r s1 where rr: "ReadRune s = Inr (r, s1)"
    by (auto simp: unfold split: sum.splits)
  show ?case
  proof (cases "tokenFromString (vb @ r) customVerbs")
    case (Some t0)
    with "1.prems" rr have "t = t0" by (simp add: unfold)
    with Some show ?thesis by blast
  next
    case None
    show ?thesis
    proof (cases "readSeparator s1")
      case True
      with "1.prems" rr None have "t = literalToken ('':'' @ vb @ r)" by (simp add: unfold)
      with None show ?thesis by blast
    next
      case False
      with "1.prems" rr None
      have "readAction_loop (vb @ r) customVerbs s1 = Inr (t, s')" by (simp add: unfold)
      from "1.IH" [OF rr refl None False this] show ?thesis .
    qed
  qed
qed

lemma ReadRune_hd:
  assumes "ReadRune s = Inr (r, s')" and "r \<noteq> [c]" and "(of_char c :: nat) < 128"
  shows "r \<noteq> [] \<and> hd r \<noteq> c"
proof (cases "(of_char (hd s) :: nat) < 128")
  case True
  with ReadRune_Inr [OF assms(1)] assms(2) show ?thesis by auto
next
  case False
  with ReadRune_Inr [OF assms(1)] assms(3) show ?thesis by auto
qed

lemma nextToken_token:
  assumes "nextToken customVerbs s = Inr (t, s')"
  shows "t = spaceToken \<or>
     (\<exists>v. tokenFromString v customVerbs = Some t) \<or>
     (\<exists>v. t = literalToken ('':'' @ v) \<and> tokenFromString v customVerbs = None) \<or>
     (\<exists>c. t = literalToken c \<and> c \<noteq> [] \<and> hd c \<noteq> CHR '':'' \<and> hd c \<noteq> CHR '' '')"
proof -
  from assms obtain r s1 where rr: "ReadRune s = Inr (r, s1)"
    by (auto simp: nextToken_def split: sum.splits)
  from assms rr consider "t = spaceToken"
    | "readAction_loop [] customVerbs s1 = Inr (t, s')"
    | "r \<noteq> '' ''" and "r \<noteq> '':''" and "readLiteral_loop r s1 = Inr (t, s')"
    by (auto simp: nextToken_def readAction_def readLiteral_def split: if_splits)
  then show ?thesis
  proof cases
    case 1
    then show ?thesis by simp
  next
    case 2
    from readAction_loop_token [OF 2] show ?thesis by blast
  next
    case 3
    from readLiteral_loop_token [OF 3(3)] obtain c where t: "t = literalToken (r @ c)" ..
    from ReadRune_hd [OF rr 3(1)] have a: "r \<noteq> [] \<and> hd r \<noteq> CHR '' ''" by simp
    from ReadRune_hd [OF rr 3(2)] have b: "hd r \<noteq> CHR '':''" by simp
    from a b t have "t = literalToken (r @ c) \<and> r @ c \<noteq> [] \<and> hd (r @ c) \<noteq> CHR '':'' \<and> hd (r @ c) \<noteq> CHR '' ''"
      by simp
    then show ?thesis by blast
  qed
qed


lemma nextToken_customVerb:
  assumes "nextToken customVerbs s = Inr (customVerbToken v, s')"
  shows "v \<in> set customVerbs \<and> v \<notin> set standardVerbs"
  using nextToken_token [OF assms] by (auto dest: tokenFromString_Some)

subsection \<open>An action that matches no verb\<close>

lemma first_size: "first b0 = Some (sz, lo, hi) \<Longrightarrow> 2 \<le> sz \<and> sz \<le> 4"
  by (auto simp: first_def split: if_splits)

lemma DecodeRune_append:
  assumes "DecodeRune r = (r, n)" and "drop n r = []" and "r \<noteq> []"
  shows "DecodeRune (r @ s) = (r, length r)"
proof (cases "first (of_char (hd r))")
  case None
  with assms show ?thesis by (auto simp: DecodeRune_def RuneError_def)
next
  case (Some p)
  obtain sz lo hi where p: "p = (sz, lo, hi)" by (cases p)
  note f = Some [unfolded p]
  note sz = first_size [OF f]
  have ne: "RuneError \<noteq> r \<or> n \<noteq> 1"
    using assms(2) by (auto simp: RuneError_def)
  have hd: "hd (r @ s) = hd r" using assms(3) by simp
  from assms f ne sz have len: "sz \<le> length r" and n: "n = length r"
    by (auto simp: DecodeRune_def split: if_splits)
  from assms f ne sz n show ?thesis
    unfolding DecodeRune_def hd f
    by (auto simp: nth_append split: if_splits)
qed

lemma validRune_append:
  assumes "validRune r"
  shows "ReadRune (r @ s) = Inr (r, s)"
proof (cases r)
  case Nil
  with assms show ?thesis by (simp add: validRune_def ReadRune_def)
next
  case (Cons b0 bs)
  show ?thesis
  proof (cases "(of_char b0 :: nat) < 128")
    case True
    with assms Cons show ?thesis by (auto simp: validRune_def ReadRune_def)
  next
    case False
    obtain r0 n where d: "DecodeRune r = (r0, n)" by (cases "DecodeRune r")
    from assms Cons False d have "r0 = r" and "drop n r = []"
      by (auto simp: validRune_def ReadRune_def)
    with d have "DecodeRune (r @ s) = (r, length r)"
      using Cons DecodeRune_append [of r n s] by simp
    with Cons False show ?thesis by (simp add: ReadRune_def)
  qed
qed


lemma validRune_not_separator:
  assumes "validRune r" and "r \<noteq> '' ''" and "r \<noteq> '':''"
  shows "\<not> readSeparator (r @ s)"
proof -
  from assms(1) have rr: "ReadRune r = Inr (r, [])" by (simp add: validRune_def)
  from ReadRune_hd [OF rr assms(2)] ReadRune_hd [OF rr assms(3)]
  have "r \<noteq> []" and "hd r \<noteq> CHR '' ''" and "hd r \<noteq> CHR '':''" by simp_all
  then show ?thesis
    by (cases r) (simp_all add: readSeparator_def Peek1_def)
qed

lemma readAction_loop_demote:
  assumes "validRune r0" and "\<forall>r\<in>set rs. validRune r \<and> r \<noteq> '' '' \<and> r \<noteq> '':''"
    and "\<forall>k\<le>length rs. tokenFromString (vb @ r0 @ concat (take k rs)) customVerbs = None"
    and "readSeparator rest"
  shows "readAction_loop vb customVerbs (r0 @ concat rs @ rest) =
    Inr (literalToken ('':'' @ vb @ r0 @ concat rs), rest)"
  using assms(1-3)
proof (induction rs arbitrary: r0 vb)
  case Nil
  from Nil.prems(3) have "tokenFromString (vb @ r0) customVerbs = None" by simp
  with validRune_append [OF Nil.prems(1), of rest] assms(4) show ?case
    by (simp add: readAction_loop.simps [of vb customVerbs "r0 @ rest"])
next
  case (Cons r1 rs)
  from Cons.prems(3) have nm: "tokenFromString (vb @ r0) customVerbs = None" by force
  from Cons.prems(2) have v1: "validRune r1" and "r1 \<noteq> '' ''" and "r1 \<noteq> '':''" by simp_all
  then have ns: "\<not> readSeparator (r1 @ concat rs @ rest)"
    by (rule validRune_not_separator)
  have "\<forall>k\<le>length rs. tokenFromString ((vb @ r0) @ r1 @ concat (take k rs)) customVerbs = None"
  proof (intro allI impI)
    fix k assume "k \<le> length rs"
    then have "Suc k \<le> length (r1 # rs)" by simp
    with Cons.prems(3) have "tokenFromString (vb @ r0 @ concat (take (Suc k) (r1 # rs))) customVerbs = None"
      by blast
    then show "tokenFromString ((vb @ r0) @ r1 @ concat (take k rs)) customVerbs = None" by simp
  qed
  with Cons.IH [OF v1, of "vb @ r0"] Cons.prems(2)
  have rec: "readAction_loop (vb @ r0) customVerbs (r1 @ concat rs @ rest) =
    Inr (literalToken ('':'' @ (vb @ r0) @ r1 @ concat rs), rest)" by simp
  from validRune_append [OF Cons.prems(1), of "r1 @ concat rs @ rest"] nm ns rec show ?case
    by (simp add: readAction_loop.simps [of vb customVerbs "r0 @ r1 @ concat rs @ rest"])
qed

lemma tokenize_trigger:
  "tokenize (CHR '':'' # s) customVerbs =
    (case readAction customVerbs s of
       Inl e \<Rightarrow> Inr []
     | Inr (tkn, s') \<Rightarrow> (case tokenize s' customVerbs of Inl e \<Rightarrow> Inl e | Inr ts \<Rightarrow> Inr (tkn # ts)))"
proof -
  have nt: "nextToken customVerbs (CHR '':'' # s) = readAction customVerbs s"
    by (simp add: nextToken_def ReadRune_def)
  show ?thesis
  proof (cases "readAction customVerbs s")
    case (Inl e)
    with nt tokenize_EOF [of customVerbs "CHR '':'' # s" e] show ?thesis by simp
  next
    case (Inr p)
    obtain tkn s' where "p = (tkn, s')" by (cases p)
    with Inr nt tokenize_step [of customVerbs "CHR '':'' # s" tkn s'] show ?thesis by simp
  qed
qed

lemma customVerbs_loop_absent:
  "s \<notin> set customVerbs \<Longrightarrow> customVerbs_loop s customVerbs = None"
  by (simp add: customVerbs_loop_None_iff)

subsection \<open>Evaluation on given formats\<close>

lemmas scanner_defs =
  tokenize_def tokenize_loop.simps nextToken_def ReadRune_def
  readAction_def readAction_loop.simps readLiteral_def readLiteral_loop.simps
  tokenFromString_def readSeparator_def Peek1_def

text \<open>
  C10. Two action triggers in a row, no custom verbs: the second trigger is read as the
  first rune of the candidate, so \<open>"::bar"\<close> gives the one literal \<open>"::bar"\<close> and
  \<open>"::"\<close> gives the one literal \<open>"::"\<close>.
\<close>

theorem double_trigger_literal:
  "tokenize ''::bar'' [] = Inr [literalToken ''::bar''] \<and>
   tokenize ''::'' [] = Inr [literalToken ''::'']"
  by (simp add: scanner_defs)

text \<open>
  C6. An action whose candidate matches no verb is demoted to one literal, the trigger
  followed by the whole candidate. The candidate is the runes \<open>r0, rs\<close> up to the next
  separator (or the end of the format): the first rune is whatever follows the trigger,
  the others are neither a space nor a trigger; no candidate prefix
  \<open>r0\<close>, \<open>r0 r1\<close>, ... is a standard or custom verb. Then the scan gives the literal
  and goes on with the rest of the format. The instances \<open>":zzz"\<close> and \<open>":ba"\<close>
  follow it.
\<close>

theorem action_demoted_to_literal:
  assumes "validRune r0" and "\<forall>r\<in>set rs. validRune r \<and> r \<noteq> '' '' \<and> r \<noteq> '':''"
    and "\<forall>k\<le>length rs. tokenFromString (r0 @ concat (take k rs)) customVerbs = None"
    and "readSeparator rest"
  shows "\<exists>ts. tokenize rest customVerbs = Inr ts \<and>
    tokenize ('':'' @ r0 @ concat rs @ rest) customVerbs =
      Inr (literalToken ('':'' @ r0 @ concat rs) # ts)"
proof -
  obtain ts where ts: "tokenize rest customVerbs = Inr ts"
    using tokenize_total by blast
  from assms(3) have "\<forall>k\<le>length rs. tokenFromString ([] @ r0 @ concat (take k rs)) customVerbs = None"
    by simp
  from readAction_loop_demote [OF assms(1,2) this assms(4)]
  have "readAction customVerbs (r0 @ concat rs @ rest) =
    Inr (literalToken ('':'' @ r0 @ concat rs), rest)"
    by (simp add: readAction_def)
  with ts show ?thesis
    by (simp add: tokenize_trigger)
qed

theorem action_demoted_to_literal_witness:
  "tokenize '':zzz'' [] = Inr [literalToken '':zzz''] \<and>
   tokenize '':ba'' [] = Inr [literalToken '':ba'']"
proof -
  have v: "validRune ''z''" "validRune ''b''" "validRune ''a''"
    by (simp_all add: validRune_def ReadRune_def)
  have e: "tokenize [] [] = Inr []" by (simp add: scanner_defs)
  have s: "readSeparator []" by (simp add: readSeparator_def Peek1_def)
  have "\<forall>k\<le>length [''z'', ''z'']. tokenFromString (''z'' @ concat (take k [''z'', ''z''])) [] = None"
    by (simp add: tokenFromString_def le_Suc_eq all_conj_distrib)
  with action_demoted_to_literal [of "''z''" "[''z'', ''z'']" "[]" "[]"] v e s
  have 1: "tokenize '':zzz'' [] = Inr [literalToken '':zzz'']" by simp
  have "\<forall>k\<le>length [''a'']. tokenFromString (''b'' @ concat (take k [''a''])) [] = None"
    by (simp add: tokenFromString_def le_Suc_eq all_conj_distrib)
  with action_demoted_to_literal [of "''b''" "[''a'']" "[]" "[]"] v e s
  have 2: "tokenize '':ba'' [] = Inr [literalToken '':ba'']" by simp
  from 1 2 show ?thesis ..
qed

text \<open>
  C1. A format that ends in the trigger. \<open>readAction\<close> finds the reader at its end on
  its first read and hands \<open>io.EOF\<close> back; \<open>tokenize\<close> takes that as the end of
  the format. No token stands for the trigger: \<open>":"\<close> gives no token at all and
  \<open>"a:"\<close> gives the literal \<open>"a"\<close> alone, whatever the custom verbs.
\<close>

theorem trailing_trigger_dropped:
  "tokenize '':'' customVerbs = Inr [] \<and>
   tokenize ''a:'' customVerbs = Inr [literalToken ''a'']"
  by (simp add: scanner_defs)

text \<open>
  C2, as the claim has it, fails on a custom verb that is a proper prefix of
  \<open>"bar"\<close>: the candidate is matched after every rune, so with the custom verb
  \<open>"b"\<close> the format \<open>":bar"\<close> gives the custom verb \<open>b\<close> and the literal
  \<open>"ar"\<close>.
\<close>

theorem bar_custom_prefix_counterexample:
  "tokenize '':bar'' [''b''] = Inr [customVerbToken ''b'', literalToken ''ar''] \<and>
   tokenize '':bar'' [''b''] \<noteq> Inr [barToken]"
  by (simp add: scanner_defs)

text \<open>
  C2, amended. For every list of custom verbs that holds neither \<open>"b"\<close> nor
  \<open>"ba"\<close> (whether or not it holds \<open>"bar"\<close>), \<open>":bar"\<close> gives exactly the bar
  token. Standard names are matched before custom ones: no custom verb token in the
  result of any scan carries a standard name, and the name it carries is one of the
  custom verbs.
\<close>

theorem bar_verb_standard_first:
  "(''b'' \<notin> set customVerbs \<and> ''ba'' \<notin> set customVerbs \<longrightarrow>
      tokenize '':bar'' customVerbs = Inr [barToken]) \<and>
   (\<forall>f ts v. tokenize f customVerbs = Inr ts \<and> customVerbToken v \<in> set ts \<longrightarrow>
      v \<in> set customVerbs \<and> v \<notin> set standardVerbs)"
proof (rule conjI; (intro allI)?; rule impI)
  assume "''b'' \<notin> set customVerbs \<and> ''ba'' \<notin> set customVerbs"
  then show "tokenize '':bar'' customVerbs = Inr [barToken]"
    by (simp add: scanner_defs customVerbs_loop_absent)
next
  fix f ts v
  assume a: "tokenize f customVerbs = Inr ts \<and> customVerbToken v \<in> set ts"
  then have ta: "tokenize f customVerbs = Inr ts" and m: "customVerbToken v \<in> set ts"
    by simp_all
  have "\<forall>t\<in>set ts. \<forall>w. t = customVerbToken w \<longrightarrow> w \<in> set customVerbs \<and> w \<notin> set standardVerbs"
  proof (rule tokenize_all [OF _ ta])
    fix s t s'
    assume "nextToken customVerbs s = Inr (t, s')"
    then show "\<forall>w. t = customVerbToken w \<longrightarrow> w \<in> set customVerbs \<and> w \<notin> set standardVerbs"
      using nextToken_customVerb by blast
  qed
  with m show "v \<in> set customVerbs \<and> v \<notin> set standardVerbs" by blast
qed

theorem bar_verb_standard_first_witness:
  "''b'' \<notin> set [''bar'', ''foo''] \<and> ''ba'' \<notin> set [''bar'', ''foo''] \<and>
   tokenize '':bar'' [''bar'', ''foo''] = Inr [barToken] \<and>
   tokenize '':foo'' [''bar'', ''foo''] = Inr [customVerbToken ''foo''] \<and>
   ''foo'' \<in> set [''bar'', ''foo''] \<and> ''foo'' \<notin> set standardVerbs"
proof -
  note inst = bar_verb_standard_first [of "[''bar'', ''foo'']"]
  have h: "''b'' \<notin> set [''bar'', ''foo''] \<and> ''ba'' \<notin> set [''bar'', ''foo'']" by simp
  from inst h have 1: "tokenize '':bar'' [''bar'', ''foo''] = Inr [barToken]" by blast
  have t: "tokenize '':foo'' [''bar'', ''foo''] = Inr [customVerbToken ''foo'']"
    by (simp add: scanner_defs)
  then have "tokenize '':foo'' [''bar'', ''foo''] = Inr [customVerbToken ''foo''] \<and>
    customVerbToken ''foo'' \<in> set [customVerbToken ''foo'']" by simp
  with inst have 2: "''foo'' \<in> set [''bar'', ''foo''] \<and> ''foo'' \<notin> set standardVerbs" by blast
  from h 1 t 2 show ?thesis by blast
qed




end
